theory Spec2Isabelle
  imports Complex_Main "HOL-Library.Sublist" "HOL-Library.Log_Nat"
begin

section \<open>Errors\<close>

text \<open>
  Every failure of the module is a Python exception. The functions of the module raise
  \<open>ValueError\<close> with a message; integer true division can raise \<open>OverflowError\<close>
  and \<open>ZeroDivisionError\<close>;
  \<open>OtherError\<close> stands for any other exception class raised by a library
  (the table reader, for instance). All of them carry their message.
\<close>

datatype error =
  ValueError string | OverflowError string | ZeroDivisionError string | OtherError string

fun str :: "error \<Rightarrow> string" where
  "str (ValueError m) = m"
| "str (OverflowError m) = m"
| "str (ZeroDivisionError m) = m"
| "str (OtherError m) = m"

section \<open>Numeric summary utilities\<close>

subsection \<open>The random source\<close>

text \<open>
  The pseudo-random generator is an external collaborator. Its state is modelled as the
  infinite sequence of raw draws it is going to deliver; \<open>randbelow n\<close> consumes one
  draw and reduces it into \<open>[0, n)\<close>. \<open>randint a b\<close> is the library's
  \<open>randrange(a, b + 1)\<close>: it raises \<open>ValueError\<close> when the range is empty (the
  message, which names the bounds, is shortened here) and otherwise returns
  \<open>a + randbelow (b + 1 - a)\<close>.
\<close>

type_synonym random_source = "nat \<Rightarrow> nat"

definition randbelow :: "nat \<Rightarrow> random_source \<Rightarrow> nat \<times> random_source" where
  "randbelow n g = (g 0 mod n, \<lambda>i. g (Suc i))"

definition randint :: "int \<Rightarrow> int \<Rightarrow> random_source \<Rightarrow> error + (int \<times> random_source)" where
  "randint a b g =
     (let width = b + 1 - a in
      if width > 0
      then (case randbelow (nat width) g of (k, g') \<Rightarrow> Inr (a + int k, g'))
      else Inl (ValueError ''empty range for randrange()''))"

subsection \<open>generate_numbers\<close>

text \<open>
  \<^verbatim>\<open>return [random.randint(lower, upper) for _ in range(count)]\<close>

  \<open>range(count)\<close> has \<open>nat count\<close> elements (none for a negative count); the
  comprehension draws one number per element and stops at the first exception.
\<close>

fun draw_numbers :: "nat \<Rightarrow> int \<Rightarrow> int \<Rightarrow> random_source \<Rightarrow> error + (int list \<times> random_source)" where
  "draw_numbers 0 lower upper g = Inr ([], g)"
| "draw_numbers (Suc n) lower upper g =
     (case randint lower upper g of
        Inl e \<Rightarrow> Inl e
      | Inr (x, g') \<Rightarrow>
          (case draw_numbers n lower upper g' of
             Inl e \<Rightarrow> Inl e
           | Inr (xs, g'') \<Rightarrow> Inr (x # xs, g'')))"

definition generate_numbers :: "int \<Rightarrow> int \<Rightarrow> int \<Rightarrow> random_source \<Rightarrow> error + (int list \<times> random_source)" where
  "generate_numbers count lower upper g = draw_numbers (nat count) lower upper g"

subsection \<open>calculate_average\<close>

text \<open>
  \<open>sum(numbers) / len(numbers)\<close> divides two unbounded integers into a float. A finite
  float (an IEEE double) is modelled as the rational number it denotes. The interpreter
  computes the quotient correctly rounded: with \<open>e\<close> the binary exponent of the exact
  quotient (\<open>2\<^sup>e \<le> |a / b| < 2\<^sup>e\<^sup>+\<^sup>1\<close>, found from the bit lengths of
  \<open>a\<close> and \<open>b\<close>, and not below the least exponent -1022 of a normal double), the
  result is the multiple of \<open>2\<^sup>e\<^sup>-\<^sup>5\<^sup>2\<close> nearest to the exact quotient, a tie
  going to the even multiple. It raises \<open>ZeroDivisionError\<close> for a zero divisor and
  \<open>OverflowError\<close> when the rounded quotient reaches \<open>2\<^sup>1\<^sup>0\<^sup>2\<^sup>4\<close>.
\<close>

type_synonym pyfloat = rat

definition round_half_even :: "rat \<Rightarrow> int" where
  "round_half_even x =
     (let f = \<lfloor>x\<rfloor>; d = x - of_int f in
      if d < 1 / 2 then f
      else if d > 1 / 2 then f + 1
      else if even f then f else f + 1)"

definition float_exponent :: "int \<Rightarrow> int \<Rightarrow> int" where
  "float_exponent a b =
     (let k = int (floorlog 2 (nat \<bar>a\<bar>)) - int (floorlog 2 (nat \<bar>b\<bar>)) in
      if (2 :: rat) powi k * of_int \<bar>b\<bar> \<le> of_int \<bar>a\<bar> then k else k - 1)"

definition int_true_divide :: "int \<Rightarrow> int \<Rightarrow> error + pyfloat" where
  "int_true_divide a b =
     (if b = 0 then Inl (ZeroDivisionError ''division by zero'')
      else if a = 0 then Inr 0
      else
        let e = max (float_exponent a b) (- 1022);
            ulp = 2 powi (e - 52);
            r = of_int (round_half_even (of_int a / of_int b / ulp)) * ulp
        in if \<bar>r\<bar> \<ge> 2 ^ 1024
           then Inl (OverflowError ''integer division result too large for a float'')
           else Inr r)"

definition calculate_average :: "int list \<Rightarrow> error + pyfloat" where
  "calculate_average numbers =
     (if numbers = [] then Inl (ValueError ''List of numbers cannot be empty'')
      else int_true_divide (sum_list numbers) (int (length numbers)))"

text \<open>
  The quotient the specification names, the sum divided by the length, as an exact
  rational number: the value \<open>calculate_average\<close> is compared with.
\<close>

definition exact_average :: "int list \<Rightarrow> rat" where
  "exact_average numbers = of_int (sum_list numbers) / of_int (int (length numbers))"

subsection \<open>find_max\<close>

text \<open>
  The builtin \<open>max\<close> keeps the first item as candidate and replaces it by every later
  item that is strictly greater.
\<close>

fun max_from :: "int \<Rightarrow> int list \<Rightarrow> int" where
  "max_from m [] = m"
| "max_from m (x # xs) = max_from (if x > m then x else m) xs"

definition find_max :: "int list \<Rightarrow> error + int" where
  "find_max numbers =
     (if numbers = [] then Inl (ValueError ''List of numbers cannot be empty'')
      else Inr (max_from (hd numbers) (tl numbers)))"

section \<open>Tabular summary utilities\<close>

subsection \<open>The table\<close>

text \<open>
  The table library is an external collaborator; the module uses its row count, its
  column membership test, column selection, element-wise comparison, selection of rows
  by a boolean mask and \<open>head\<close>. A cell is a number, a string or the missing value
  \<open>NaN\<close>. A row carries its index label and its cells by column name; a column a
  row has no entry for reads as \<open>NaN\<close>.
\<close>

datatype cell = Num rat | Str string | NaN

type_synonym row = "(string \<times> cell) list"

record dataframe =
  columns :: "string list"
  rows :: "(nat \<times> row) list"

definition cell_of :: "row \<Rightarrow> string \<Rightarrow> cell" where
  "cell_of r c = (case map_of r c of Some v \<Rightarrow> v | None \<Rightarrow> NaN)"

text \<open>\<open>df.empty\<close>: one of the two axes has length zero.\<close>

definition df_empty :: "dataframe \<Rightarrow> bool" where
  "df_empty df = (columns df = [] \<or> rows df = [])"

text \<open>\<open>df[column]\<close>: the values of the column, one per row, in row order.\<close>

definition getitem_column :: "dataframe \<Rightarrow> string \<Rightarrow> cell list" where
  "getitem_column df c = map (\<lambda>(l, r). cell_of r c) (rows df)"

text \<open>\<open>series.empty\<close>: the series has no element.\<close>

definition series_empty :: "cell list \<Rightarrow> bool" where
  "series_empty s = (s = [])"

text \<open>
  Equality of two cells as Python computes it: a number equals a number of the same
  value, a string equals the same string, and \<open>NaN\<close> equals nothing.
\<close>

fun py_eq :: "cell \<Rightarrow> cell \<Rightarrow> bool" where
  "py_eq (Num a) (Num b) = (a = b)"
| "py_eq (Str s) (Str t) = (s = t)"
| "py_eq _ _ = False"

text \<open>\<open>series == value\<close>: the element-wise comparison, a boolean mask.\<close>

definition series_eq :: "cell list \<Rightarrow> cell \<Rightarrow> bool list" where
  "series_eq s v = map (\<lambda>c. py_eq c v) s"

text \<open>\<open>df[mask]\<close>: the rows whose mask entry is true, in row order.\<close>

definition getitem_mask :: "dataframe \<Rightarrow> bool list \<Rightarrow> dataframe" where
  "getitem_mask df m = df\<lparr>rows := map fst (filter snd (zip (rows df) m))\<rparr>"

text \<open>
  \<open>df.head(n)\<close> is \<open>df.iloc[:n]\<close>: the first \<open>n\<close> rows for \<open>n \<ge> 0\<close>, and all
  rows but the last \<open>-n\<close> for a negative \<open>n\<close>.
\<close>

definition slice_to :: "int \<Rightarrow> 'a list \<Rightarrow> 'a list" where
  "slice_to n xs = (if n \<ge> 0 then take (nat n) xs else take (length xs - nat (- n)) xs)"

definition df_head :: "int \<Rightarrow> dataframe \<Rightarrow> dataframe" where
  "df_head n df = df\<lparr>rows := slice_to n (rows df)\<rparr>"

subsection \<open>load_data\<close>

text \<open>
  \<^verbatim>\<open>
  try:
      df = pd.read_csv(url)
      if df.empty:
          raise ValueError("Loaded data is empty")
      return df
  except Exception as e:
      raise ValueError(f"Failed to load data from {url}: {str(e)}")
  \<close>
  The reader is a parameter: it maps a location to a table or to the exception it raises.
  \<open>load_data_try\<close> is the body of the \<open>try\<close>; the handler catches every exception
  raised in it, the one of the emptiness check included.
\<close>

definition load_data_try :: "(string \<Rightarrow> error + dataframe) \<Rightarrow> string \<Rightarrow> error + dataframe" where
  "load_data_try read_csv url =
     (case read_csv url of
        Inl e \<Rightarrow> Inl e
      | Inr df \<Rightarrow> if df_empty df then Inl (ValueError ''Loaded data is empty'') else Inr df)"

definition load_data :: "(string \<Rightarrow> error + dataframe) \<Rightarrow> string \<Rightarrow> error + dataframe" where
  "load_data read_csv url =
     (case load_data_try read_csv url of
        Inl e \<Rightarrow> Inl (ValueError (''Failed to load data from '' @ url @ '': '' @ str e))
      | Inr df \<Rightarrow> Inr df)"

subsection \<open>calculate_column_mean, find_column_max\<close>

text \<open>
  The two messages of the column checks; \<open>CHR 0x27\<close> is the single quote.
\<close>

definition column_not_found :: "string \<Rightarrow> error" where
  "column_not_found column =
     ValueError (''Column '' @ [CHR 0x27] @ column @ [CHR 0x27] @ '' not found in DataFrame'')"

definition column_no_data :: "string \<Rightarrow> error" where
  "column_no_data column =
     ValueError (''Column '' @ [CHR 0x27] @ column @ [CHR 0x27] @ '' contains no data'')"

text \<open>
  The library's \<open>Series.mean\<close> and \<open>Series.max\<close> are parameters: each maps the
  values of a column to its result or to the exception it raises.
\<close>

definition calculate_column_mean ::
  "(cell list \<Rightarrow> error + 'v) \<Rightarrow> dataframe \<Rightarrow> string \<Rightarrow> error + 'v" where
  "calculate_column_mean series_mean df column =
     (if column \<notin> set (columns df) then Inl (column_not_found column)
      else if series_empty (getitem_column df column) then Inl (column_no_data column)
      else series_mean (getitem_column df column))"

definition find_column_max ::
  "(cell list \<Rightarrow> error + 'v) \<Rightarrow> dataframe \<Rightarrow> string \<Rightarrow> error + 'v" where
  "find_column_max series_max df column =
     (if column \<notin> set (columns df) then Inl (column_not_found column)
      else if series_empty (getitem_column df column) then Inl (column_no_data column)
      else series_max (getitem_column df column))"

subsection \<open>filter_by_category\<close>

definition filter_by_category :: "dataframe \<Rightarrow> string \<Rightarrow> cell \<Rightarrow> int \<Rightarrow> error + dataframe" where
  "filter_by_category df column value limit =
     (if column \<notin> set (columns df) then Inl (column_not_found column)
      else Inr (df_head limit (getitem_mask df (series_eq (getitem_column df column) value))))"

subsection \<open>A sample table\<close>

text \<open>
  Four rows in the shape of the iris data set the module's entry point loads; the third
  row has a missing \<open>sepal_length\<close>.
\<close>

definition iris_sample :: dataframe where
  "iris_sample =
     \<lparr>columns = [''sepal_length'', ''species''],
      rows = [(0, [(''sepal_length'', Num (51 / 10)), (''species'', Str ''setosa'')]),
              (1, [(''sepal_length'', Num 7), (''species'', Str ''versicolor'')]),
              (2, [(''sepal_length'', NaN), (''species'', Str ''setosa'')]),
              (3, [(''sepal_length'', Num 5), (''species'', Str ''setosa'')])]\<rparr>"

section \<open>Properties of the numeric utilities\<close>

lemma randint_range:
  assumes "randint a b g = Inr (x, g')"
  shows "a \<le> x \<and> x \<le> b"
proof -
  from assms have w: "b + 1 - a > 0"
    by (auto simp: randint_def Let_def split: if_splits)
  with assms have "x = a + int (g 0 mod nat (b + 1 - a))"
    by (auto simp: randint_def Let_def randbelow_def)
  moreover have "int (g 0 mod nat (b + 1 - a)) < b + 1 - a"
  proof -
    from w have "g 0 mod nat (b + 1 - a) < nat (b + 1 - a)" by simp
    with w show ?thesis by linarith
  qed
  ultimately show ?thesis by simp
qed

lemma randint_ok:
  assumes "a \<le> b"
  shows "\<exists>x g'. randint a b g = Inr (x, g')"
  using assms by (simp add: randint_def Let_def randbelow_def)

lemma randint_empty_range:
  assumes "b < a"
  shows "\<exists>m. randint a b g = Inl (ValueError m)"
  using assms by (simp add: randint_def Let_def)

lemma draw_numbers_ok:
  assumes "lower \<le> upper"
  shows "\<exists>xs g'. draw_numbers n lower upper g = Inr (xs, g') \<and> length xs = n
           \<and> (\<forall>x \<in> set xs. lower \<le> x \<and> x \<le> upper)"
proof (induction n arbitrary: g)
  case 0
  then show ?case by simp
next
  case (Suc n)
  from randint_ok [OF assms] obtain x g1 where r: "randint lower upper g = Inr (x, g1)"
    by blast
  from Suc.IH [of g1] obtain xs g2 where d: "draw_numbers n lower upper g1 = Inr (xs, g2)"
    and l: "length xs = n" and b: "\<forall>x \<in> set xs. lower \<le> x \<and> x \<le> upper"
    by blast
  from randint_range [OF r] have "lower \<le> x \<and> x \<le> upper" .
  with r d l b show ?case by simp
qed

lemma max_from_ge: "m \<le> max_from m xs"
proof (induction xs arbitrary: m)
  case Nil
  then show ?case by simp
next
  case (Cons x xs)
  have "m \<le> (if x > m then x else m)" by simp
  also have "\<dots> \<le> max_from (if x > m then x else m) xs" by (rule Cons.IH)
  finally show ?case by simp
qed

lemma max_from_upper: "\<forall>x \<in> set xs. x \<le> max_from m xs"
proof (induction xs arbitrary: m)
  case Nil
  then show ?case by simp
next
  case (Cons x xs)
  have "x \<le> (if x > m then x else m)" by simp
  also have "\<dots> \<le> max_from (if x > m then x else m) xs" by (rule max_from_ge)
  finally have "x \<le> max_from m (x # xs)" by simp
  moreover have "\<forall>y \<in> set xs. y \<le> max_from m (x # xs)"
    using Cons.IH [of "if x > m then x else m"] by simp
  ultimately show ?case by simp
qed

lemma max_from_mem: "max_from m xs \<in> set (m # xs)"
proof (induction xs arbitrary: m)
  case Nil
  then show ?case by simp
next
  case (Cons x xs)
  from Cons.IH [of "if x > m then x else m"] show ?case
    by (auto split: if_splits)
qed

text \<open>
  Claim C6. For every non-empty sequence of integers, \<open>find_max\<close> returns an element
  of the sequence that is greater than or equal to every element; in particular
  \<open>find_max [2, 4, 6]\<close> is 6.
\<close>

theorem find_max_largest:
  "(\<forall>numbers. numbers \<noteq> [] \<longrightarrow>
      (\<exists>m. find_max numbers = Inr m \<and> m \<in> set numbers \<and> (\<forall>x \<in> set numbers. x \<le> m)))
   \<and> find_max [2, 4, 6] = Inr 6"
proof (intro conjI allI impI)
  fix numbers :: "int list"
  assume ne: "numbers \<noteq> []"
  then obtain y ys where n: "numbers = y # ys" by (cases numbers) auto
  have "max_from y ys \<in> set (y # ys)" by (rule max_from_mem)
  moreover have "y \<le> max_from y ys" by (rule max_from_ge)
  moreover have "\<forall>x \<in> set ys. x \<le> max_from y ys" by (rule max_from_upper)
  ultimately show "\<exists>m. find_max numbers = Inr m \<and> m \<in> set numbers \<and> (\<forall>x \<in> set numbers. x \<le> m)"
    using n by (simp add: find_max_def)
next
  show "find_max [2, 4, 6] = Inr 6" by (simp add: find_max_def)
qed

theorem find_max_largest_witness:
  "[3, 9, 4] \<noteq> ([] :: int list) \<and> find_max [3, 9, 4] = Inr 9 \<and> 9 \<in> set [3, 9, 4 :: int]
   \<and> list_all (\<lambda>x. x \<le> 9) [3, 9, 4 :: int]"
proof -
  have ne: "[3, 9, 4] \<noteq> ([] :: int list)" by simp
  from find_max_largest ne
  obtain m where "find_max [3, 9, 4] = Inr m" and "m \<in> set [3, 9, 4]"
    and "\<forall>x \<in> set [3, 9, 4 :: int]. x \<le> m"
    by blast
  moreover have "find_max [3, 9, 4] = Inr 9" by (simp add: find_max_def)
  ultimately show ?thesis by (simp add: list_all_iff)
qed

text \<open>
  Claim C9. For every negative count, \<open>generate_numbers\<close> returns the empty sequence
  rather than failing, whatever the bounds, and draws nothing from the random source.
\<close>

theorem generate_numbers_negative_count:
  "count < 0 \<Longrightarrow> generate_numbers count lower upper g = Inr ([], g)"
  by (simp add: generate_numbers_def)

theorem generate_numbers_negative_count_witness:
  "(-3 :: int) < 0 \<and> generate_numbers (-3) 5 1 (\<lambda>i. 7 * i + 3) = Inr ([], \<lambda>i. 7 * i + 3)"
proof -
  have h: "(-3 :: int) < 0" by simp
  from generate_numbers_negative_count [OF h, of 5 1 "\<lambda>i. 7 * i + 3"] h
  show ?thesis by simp
qed

text \<open>
  Claim C3, as stated: for all \<open>count \<ge> 0\<close> and all bounds, \<open>generate_numbers\<close>
  returns exactly \<open>count\<close> integers within the bounds. With \<open>lower > upper\<close> and a
  positive count the first draw raises \<open>ValueError\<close>: nothing is returned.
\<close>

theorem generate_numbers_empty_range_counterexample:
  "\<not> (\<forall>count lower upper g. 0 \<le> count \<longrightarrow>
        (\<exists>xs g'. generate_numbers count lower upper g = Inr (xs, g') \<and> int (length xs) = count
           \<and> (\<forall>x \<in> set xs. lower \<le> x \<and> x \<le> upper)))"
proof
  assume a: "\<forall>count lower upper g. 0 \<le> count \<longrightarrow>
        (\<exists>xs g'. generate_numbers count lower upper g = Inr (xs, g') \<and> int (length xs) = count
           \<and> (\<forall>x \<in> set xs. lower \<le> x \<and> x \<le> upper))"
  have "(0::int) \<le> 1" by simp
  with a obtain xs g' where "generate_numbers 1 2 1 (\<lambda>i. 0) = Inr (xs, g')" by blast
  moreover have "generate_numbers 1 2 1 (\<lambda>i. 0) = Inl (ValueError ''empty range for randrange()'')"
    by (simp add: generate_numbers_def randint_def)
  ultimately show False by simp
qed

text \<open>
  Claim C3, amended: for every \<open>count \<ge> 0\<close> and all bounds with \<open>lower \<le> upper\<close>
  (or with a count of zero), \<open>generate_numbers\<close> returns a sequence of exactly
  \<open>count\<close> integers, each in the inclusive range \<open>[lower, upper]\<close>.
\<close>

theorem generate_numbers_length_range:
  assumes "0 \<le> count" and "lower \<le> upper \<or> count = 0"
  shows "\<exists>xs g'. generate_numbers count lower upper g = Inr (xs, g') \<and> int (length xs) = count
           \<and> (\<forall>x \<in> set xs. lower \<le> x \<and> x \<le> upper)"
proof (cases "count = 0")
  case True
  then show ?thesis by (simp add: generate_numbers_def)
next
  case False
  with assms have le: "lower \<le> upper" by simp
  from draw_numbers_ok [OF le, of "nat count" g] assms(1) show ?thesis
    by (auto simp: generate_numbers_def)
qed

theorem generate_numbers_length_range_witness:
  "(0::int) \<le> 3 \<and> (1::int) \<le> 100
   \<and> (\<exists>xs g'. generate_numbers 3 1 100 (\<lambda>i. 7 * i + 3) = Inr (xs, g') \<and> int (length xs) = 3
        \<and> list_all (\<lambda>x. 1 \<le> x \<and> x \<le> 100) xs)
   \<and> fst (projr (generate_numbers 3 1 100 (\<lambda>i. 7 * i + 3))) = [4, 11, 18]"
proof -
  have h1: "(0::int) \<le> 3" and h2: "(1::int) \<le> 100 \<or> (3::int) = 0" by simp_all
  from generate_numbers_length_range [OF h1 h2, of "\<lambda>i. 7 * i + 3"]
  have "\<exists>xs g'. generate_numbers 3 1 100 (\<lambda>i. 7 * i + 3) = Inr (xs, g') \<and> int (length xs) = 3
        \<and> list_all (\<lambda>x. 1 \<le> x \<and> x \<le> 100) xs"
    by (simp only: list_all_iff)
  moreover have "fst (projr (generate_numbers 3 1 100 (\<lambda>i. 7 * i + 3))) = [4, 11, 18]"
    by code_simp
  ultimately show ?thesis by simp
qed
section \<open>Properties of the tabular utilities\<close>

lemma mask_select: "map fst (filter snd (zip xs (map P xs))) = filter P xs"
  by (induction xs) simp_all

lemma getitem_mask_rows:
  "rows (getitem_mask df (series_eq (getitem_column df c) v))
     = filter (\<lambda>(l, r). py_eq (cell_of r c) v) (rows df)"
proof -
  have "series_eq (getitem_column df c) v = map (\<lambda>(l, r). py_eq (cell_of r c) v) (rows df)"
    by (simp add: series_eq_def getitem_column_def case_prod_unfold comp_def)
  then show ?thesis
    by (simp add: getitem_mask_def mask_select)
qed

lemma py_eq_imp_eq: "py_eq a b \<Longrightarrow> a = b"
  by (cases a; cases b) simp_all

lemma slice_to_subseq: "subseq (slice_to n xs) xs"
proof -
  have "subseq (take k xs) xs" for k
    by (metis append_take_drop_id prefix_def prefix_imp_subseq)
  then show ?thesis by (simp add: slice_to_def)
qed

lemma slice_to_set: "set (slice_to n xs) \<subseteq> set xs"
  by (auto simp: slice_to_def dest: in_set_takeD)

lemma slice_to_length: "0 \<le> n \<Longrightarrow> int (length (slice_to n xs)) \<le> n"
  by (simp add: slice_to_def)

lemma filter_by_category_rows:
  assumes "column \<in> set (columns df)"
  shows "filter_by_category df column v limit
     = Inr (df\<lparr>rows := slice_to limit (filter (\<lambda>(l, r). py_eq (cell_of r column) v) (rows df))\<rparr>)"
proof -
  have "rows (getitem_mask df (series_eq (getitem_column df column) v))
     = filter (\<lambda>(l, r). py_eq (cell_of r column) v) (rows df)"
    by (rule getitem_mask_rows)
  moreover have "getitem_mask df m = df\<lparr>rows := rows (getitem_mask df m)\<rparr>" for m
    by (simp add: getitem_mask_def)
  ultimately show ?thesis using assms
    by (simp add: filter_by_category_def df_head_def getitem_mask_def)
qed

text \<open>
  Claim C2, amended: for every table containing the named column, every value and every
  limit, \<open>filter_by_category\<close> returns a table (never an error) with the same
  columns; every returned row's value in that column equals the given value; the returned
  rows are a subsequence of the original rows (original order); when no row matches, the
  result has no rows; and for every limit \<open>\<ge> 0\<close> the result is the first \<open>limit\<close>
  matching rows, hence has at most \<open>limit\<close> rows.
\<close>

theorem filter_by_category_result:
  assumes "column \<in> set (columns df)"
  shows "\<exists>res. filter_by_category df column v limit = Inr res
     \<and> columns res = columns df
     \<and> (0 \<le> limit \<longrightarrow> int (length (rows res)) \<le> limit)
     \<and> (0 \<le> limit \<longrightarrow>
          rows res = take (nat limit) (filter (\<lambda>(l, r). py_eq (cell_of r column) v) (rows df)))
     \<and> (\<forall>(l, r) \<in> set (rows res). cell_of r column = v)
     \<and> subseq (rows res) (rows df)
     \<and> ((\<forall>(l, r) \<in> set (rows df). \<not> py_eq (cell_of r column) v) \<longrightarrow> rows res = [])"
proof -
  let ?m = "filter (\<lambda>(l, r). py_eq (cell_of r column) v) (rows df)"
  let ?res = "df\<lparr>rows := slice_to limit ?m\<rparr>"
  have r: "filter_by_category df column v limit = Inr ?res"
    using assms by (rule filter_by_category_rows)
  have c: "columns ?res = columns df" by simp
  have l: "0 \<le> limit \<longrightarrow> int (length (rows ?res)) \<le> limit"
    by (simp add: slice_to_length)
  have t: "0 \<le> limit \<longrightarrow> rows ?res = take (nat limit) ?m"
    by (simp add: slice_to_def)
  have e: "\<forall>(l, r) \<in> set (rows ?res). cell_of r column = v"
  proof -
    have "set (slice_to limit ?m) \<subseteq> set ?m" by (rule slice_to_set)
    then have "set (rows ?res) \<subseteq> set ?m" by simp
    then show ?thesis by (auto dest: py_eq_imp_eq)
  qed
  have s: "subseq (rows ?res) (rows df)"
  proof -
    have "subseq (slice_to limit ?m) ?m" by (rule slice_to_subseq)
    moreover have "subseq ?m (rows df)" by simp
    ultimately show ?thesis by (simp add: subseq_order.order_trans)
  qed
  have z: "(\<forall>(l, r) \<in> set (rows df). \<not> py_eq (cell_of r column) v) \<longrightarrow> rows ?res = []"
  proof
    assume "\<forall>(l, r) \<in> set (rows df). \<not> py_eq (cell_of r column) v"
    then have "?m = []" by (auto simp: filter_empty_conv)
    then show "rows ?res = []" by (simp add: slice_to_def)
  qed
  from r c l t e s z show ?thesis by blast
qed

theorem filter_by_category_result_witness:
  "''species'' \<in> set (columns iris_sample)
   \<and> filter_by_category iris_sample ''species'' (Str ''setosa'') 2
       = Inr (iris_sample\<lparr>rows := [rows iris_sample ! 0, rows iris_sample ! 2]\<rparr>)
   \<and> (\<exists>res. filter_by_category iris_sample ''species'' (Str ''setosa'') 2 = Inr res
          \<and> int (length (rows res)) \<le> 2 \<and> subseq (rows res) (rows iris_sample))"
proof -
  have h: "''species'' \<in> set (columns iris_sample)" by (simp add: iris_sample_def)
  have two: "(0::int) \<le> 2" by simp
  from filter_by_category_result [OF h, of "Str ''setosa''" 2] two
  have "\<exists>res. filter_by_category iris_sample ''species'' (Str ''setosa'') 2 = Inr res
          \<and> int (length (rows res)) \<le> 2 \<and> subseq (rows res) (rows iris_sample)"
    by blast
  moreover have "filter_by_category iris_sample ''species'' (Str ''setosa'') 2
       = Inr (iris_sample\<lparr>rows := [rows iris_sample ! 0, rows iris_sample ! 2]\<rparr>)"
    by code_simp
  ultimately show ?thesis using h by simp
qed

text \<open>
  Claim C2, as stated, promises at most \<open>limit\<close> rows for every limit. \<open>head\<close> with
  a negative limit drops the last \<open>-limit\<close> rows instead: with limit \<open>-1\<close> the three
  matching rows of the sample give a result of two rows (labels 0 and 2).
\<close>

theorem filter_by_category_negative_limit_counterexample:
  "''species'' \<in> set (columns iris_sample)
   \<and> map fst (rows (projr (filter_by_category iris_sample ''species'' (Str ''setosa'') (-1)))) = [0, 2]
   \<and> \<not> int (length (rows (projr (filter_by_category iris_sample ''species'' (Str ''setosa'') (-1))))) \<le> -1"
proof -
  have "''species'' \<in> set (columns iris_sample)" by (simp add: iris_sample_def)
  moreover have "map fst (rows (projr (filter_by_category iris_sample ''species'' (Str ''setosa'') (-1)))) = [0, 2]"
    by code_simp
  ultimately show ?thesis by simp
qed

text \<open>
  Claim C8, amended: for every table containing the named column, every value and every
  limit \<open>\<ge> 0\<close>, applying \<open>filter_by_category\<close> to its own result with the same
  column, value and limit returns that result unchanged.
\<close>

theorem filter_by_category_idempotent:
  assumes "column \<in> set (columns df)" and "0 \<le> limit"
    and "filter_by_category df column v limit = Inr res"
  shows "filter_by_category res column v limit = Inr res"
proof -
  let ?P = "\<lambda>(l, r). py_eq (cell_of r column) v"
  from assms(2) have res: "res = df\<lparr>rows := take (nat limit) (filter ?P (rows df))\<rparr>"
    using filter_by_category_rows [OF assms(1), of v limit] assms(3)
    by (simp add: slice_to_def)
  then have col: "column \<in> set (columns res)" using assms(1) by simp
  have "filter ?P (take (nat limit) (filter ?P (rows df))) = take (nat limit) (filter ?P (rows df))"
    by (rule filter_True) (auto dest: in_set_takeD)
  then have "slice_to limit (filter ?P (rows res)) = rows res"
    using assms(2) res by (simp add: slice_to_def)
  then have "res\<lparr>rows := slice_to limit (filter ?P (rows res))\<rparr> = res" by simp
  with filter_by_category_rows [OF col, of v limit] show ?thesis by simp
qed

theorem filter_by_category_idempotent_witness:
  "''species'' \<in> set (columns iris_sample) \<and> (0::int) \<le> 2
   \<and> filter_by_category iris_sample ''species'' (Str ''setosa'') 2
       = Inr (iris_sample\<lparr>rows := [rows iris_sample ! 0, rows iris_sample ! 2]\<rparr>)
   \<and> filter_by_category (iris_sample\<lparr>rows := [rows iris_sample ! 0, rows iris_sample ! 2]\<rparr>)
         ''species'' (Str ''setosa'') 2
       = Inr (iris_sample\<lparr>rows := [rows iris_sample ! 0, rows iris_sample ! 2]\<rparr>)"
proof -
  have h: "''species'' \<in> set (columns iris_sample)" by (simp add: iris_sample_def)
  have two: "(0::int) \<le> 2" by simp
  have r: "filter_by_category iris_sample ''species'' (Str ''setosa'') 2
       = Inr (iris_sample\<lparr>rows := [rows iris_sample ! 0, rows iris_sample ! 2]\<rparr>)"
    by code_simp
  from filter_by_category_idempotent [OF h two r] h two r show ?thesis by simp
qed

text \<open>
  Claim C8, as stated, covers every limit. With limit \<open>-1\<close> each application drops
  the last matching row: the first result keeps the rows labelled 0 and 2, and filtering
  that result again keeps the row labelled 0 only.
\<close>

theorem filter_by_category_not_idempotent_counterexample:
  "''species'' \<in> set (columns iris_sample)
   \<and> map fst (rows (projr (filter_by_category iris_sample ''species'' (Str ''setosa'') (-1)))) = [0, 2]
   \<and> map fst (rows (projr (filter_by_category
         (projr (filter_by_category iris_sample ''species'' (Str ''setosa'') (-1)))
         ''species'' (Str ''setosa'') (-1)))) = [0]
   \<and> filter_by_category (projr (filter_by_category iris_sample ''species'' (Str ''setosa'') (-1)))
         ''species'' (Str ''setosa'') (-1)
       \<noteq> filter_by_category iris_sample ''species'' (Str ''setosa'') (-1)"
proof -
  have h: "''species'' \<in> set (columns iris_sample)" by (simp add: iris_sample_def)
  have a: "map fst (rows (projr (filter_by_category iris_sample ''species'' (Str ''setosa'') (-1)))) = [0, 2]"
    by code_simp
  have b: "map fst (rows (projr (filter_by_category
         (projr (filter_by_category iris_sample ''species'' (Str ''setosa'') (-1)))
         ''species'' (Str ''setosa'') (-1)))) = [0]"
    by code_simp
  from a b have "filter_by_category (projr (filter_by_category iris_sample ''species'' (Str ''setosa'') (-1)))
         ''species'' (Str ''setosa'') (-1)
       \<noteq> filter_by_category iris_sample ''species'' (Str ''setosa'') (-1)"
    by auto
  with h a b show ?thesis by simp
qed

text \<open>
  Claim C7. For every table lacking the named column, \<open>calculate_column_mean\<close> and
  \<open>find_column_max\<close> both fail with the column-not-found error, whatever the library's
  mean and max would compute: they are not called.
\<close>

theorem column_not_found_first:
  assumes "column \<notin> set (columns df)"
  shows "calculate_column_mean series_mean df column = Inl (column_not_found column)
       \<and> find_column_max series_max df column = Inl (column_not_found column)"
  using assms by (simp add: calculate_column_mean_def find_column_max_def)

theorem column_not_found_first_witness:
  "''petal_width'' \<notin> set (columns iris_sample)
   \<and> calculate_column_mean (\<lambda>s. Inr (length s)) iris_sample ''petal_width''
       = Inl (column_not_found ''petal_width'')
   \<and> find_column_max (\<lambda>s. Inr (length s)) iris_sample ''petal_width''
       = Inl (column_not_found ''petal_width'')"
proof -
  have h: "''petal_width'' \<notin> set (columns iris_sample)" by (simp add: iris_sample_def)
  from column_not_found_first [OF h, of "\<lambda>s. Inr (length s)" "\<lambda>s. Inr (length s)"] h
  show ?thesis by simp
qed

text \<open>
  Claim C10. For every table with at least one row that contains the named column, the
  selected column is not empty (its emptiness is that of the row list, whatever the
  cells hold), so \<open>calculate_column_mean\<close> and \<open>find_column_max\<close> do not take the
  empty-column branch: their outcome is the outcome of the library's mean and max on
  the column.
\<close>

theorem empty_column_branch_unreachable:
  assumes "rows df \<noteq> []" and "column \<in> set (columns df)"
  shows "\<not> series_empty (getitem_column df column)
       \<and> calculate_column_mean series_mean df column = series_mean (getitem_column df column)
       \<and> find_column_max series_max df column = series_max (getitem_column df column)"
  using assms
  by (simp add: calculate_column_mean_def find_column_max_def series_empty_def getitem_column_def)

theorem empty_column_branch_unreachable_witness:
  "rows iris_sample \<noteq> [] \<and> ''sepal_length'' \<in> set (columns iris_sample)
   \<and> \<not> series_empty (getitem_column iris_sample ''sepal_length'')
   \<and> calculate_column_mean (\<lambda>s. Inr (length s)) iris_sample ''sepal_length'' = Inr 4
   \<and> find_column_max (\<lambda>s. Inr (hd s)) iris_sample ''sepal_length'' = Inr (Num (51 / 10))"
proof -
  have h1: "rows iris_sample \<noteq> []" by (simp add: iris_sample_def)
  have h2: "''sepal_length'' \<in> set (columns iris_sample)" by (simp add: iris_sample_def)
  have v: "getitem_column iris_sample ''sepal_length'' = [Num (51 / 10), Num 7, NaN, Num 5]"
    by (simp add: getitem_column_def iris_sample_def cell_of_def)
  from empty_column_branch_unreachable [OF h1 h2, of "\<lambda>s. Inr (length s)" "\<lambda>s. Inr (hd s)"] h1 h2 v
  show ?thesis by simp
qed

text \<open>
  Claim C1 says that a table read successfully but without rows makes \<open>load_data\<close>
  fail with the empty-data error, distinct from the load-failure error that wraps an
  exception of the reader. The check raises \<open>ValueError("Loaded data is empty")\<close> inside
  the \<open>try\<close>, so the handler catches it and the caller receives the load-failure
  error wrapping that message, of the same form as for a reader that failed.
\<close>

theorem load_data_empty_table_wrapped:
  "load_data_try (\<lambda>u. Inr \<lparr>columns = [''sepal_length'', ''species''], rows = []\<rparr>) ''iris.csv''
     = Inl (ValueError ''Loaded data is empty'')
   \<and> load_data (\<lambda>u. Inr \<lparr>columns = [''sepal_length'', ''species''], rows = []\<rparr>) ''iris.csv''
     = Inl (ValueError ''Failed to load data from iris.csv: Loaded data is empty'')
   \<and> load_data (\<lambda>u. Inl (OtherError ''HTTP Error 404: Not Found'')) ''iris.csv''
     = Inl (ValueError ''Failed to load data from iris.csv: HTTP Error 404: Not Found'')"
  by (simp add: load_data_def load_data_try_def df_empty_def)


section \<open>Properties of calculate_average\<close>

lemma round_half_even_of_int: "round_half_even (of_int k) = k"
  by (simp add: round_half_even_def)

lemma round_half_even_close: "\<bar>of_int (round_half_even x) - x\<bar> \<le> 1 / 2"
proof -
  have "of_int \<lfloor>x\<rfloor> \<le> x" "x < of_int \<lfloor>x\<rfloor> + 1" by linarith+
  then show ?thesis
    by (auto simp: round_half_even_def Let_def abs_le_iff)
qed

lemma round_half_even_le: "x \<le> of_int n \<Longrightarrow> round_half_even x \<le> n"
proof -
  assume a: "x \<le> of_int n"
  have "of_int (round_half_even x) \<le> x + 1 / 2"
    using round_half_even_close [of x] by linarith
  also have "\<dots> < of_int n + 1" using a by simp
  finally have "(of_int (round_half_even x) :: rat) < of_int (n + 1)" by simp
  then have "round_half_even x < n + 1" by (simp only: of_int_less_iff)
  then show ?thesis by simp
qed

lemma round_half_even_ge: "of_int n \<le> x \<Longrightarrow> n \<le> round_half_even x"
proof -
  assume a: "of_int n \<le> x"
  have "x - 1 / 2 \<le> of_int (round_half_even x)"
    using round_half_even_close [of x] by linarith
  with a have "(of_int (n - 1) :: rat) < of_int (round_half_even x)" by simp
  then have "n - 1 < round_half_even x" by (simp only: of_int_less_iff)
  then show ?thesis by simp
qed

lemma floorlog_two_bounds:
  assumes "0 < n"
  shows "(2 :: rat) powi (int (floorlog 2 n) - 1) \<le> of_nat n"
    and "(of_nat n :: rat) < 2 powi (int (floorlog 2 n))"
proof -
  from assms have pos: "0 < floorlog 2 n" by (simp add: floorlog_def)
  from floorlog_bounds [of n 2] assms
  have lo: "2 ^ (floorlog 2 n - 1) \<le> n" and hi: "n < 2 ^ floorlog 2 n" by simp_all
  have "int (floorlog 2 n) - 1 = int (floorlog 2 n - 1)" using pos by simp
  then have "(2 :: rat) powi (int (floorlog 2 n) - 1) = 2 ^ (floorlog 2 n - 1)"
    by (simp only: power_int_of_nat)
  also have "\<dots> = of_nat (2 ^ (floorlog 2 n - 1))" by simp
  also have "\<dots> \<le> of_nat n" using lo by (simp only: of_nat_le_iff)
  finally show "(2 :: rat) powi (int (floorlog 2 n) - 1) \<le> of_nat n" .
  have "(of_nat n :: rat) < of_nat (2 ^ floorlog 2 n)" using hi by (simp only: of_nat_less_iff)
  also have "\<dots> = 2 powi (int (floorlog 2 n))" by simp
  finally show "(of_nat n :: rat) < 2 powi (int (floorlog 2 n))" .
qed



lemma float_exponent_bounds:
  assumes "a \<noteq> 0" and "b \<noteq> 0"
  shows "(2 :: rat) powi (float_exponent a b) \<le> \<bar>of_int a / of_int b\<bar>"
    and "\<bar>of_int a / of_int b :: rat\<bar> < 2 powi (float_exponent a b + 1)"
proof -
  define A :: rat where "A = of_int \<bar>a\<bar>"
  define B :: rat where "B = of_int \<bar>b\<bar>"
  define fa where "fa = int (floorlog 2 (nat \<bar>a\<bar>))"
  define fb where "fb = int (floorlog 2 (nat \<bar>b\<bar>))"
  have An: "A = of_nat (nat \<bar>a\<bar>)" and Bn: "B = of_nat (nat \<bar>b\<bar>)"
    by (simp_all add: A_def B_def)
  have na: "0 < nat \<bar>a\<bar>" and nb: "0 < nat \<bar>b\<bar>" using assms by simp_all
  have Alo: "2 powi (fa - 1) \<le> A" and Ahi: "A < 2 powi fa"
    using floorlog_two_bounds [OF na] by (simp_all only: An fa_def)
  have Blo: "2 powi (fb - 1) \<le> B" and Bhi: "B < 2 powi fb"
    using floorlog_two_bounds [OF nb] by (simp_all only: Bn fb_def)
  have Bpos: "0 < B" using assms by (simp add: B_def)
  have q: "\<bar>of_int a / of_int b :: rat\<bar> = A / B" by (simp add: A_def B_def)
  have p0: "(0 :: rat) < 2 powi n" for n by simp
  have fe: "float_exponent a b = (if 2 powi (fa - fb) * B \<le> A then fa - fb else fa - fb - 1)"
    by (simp add: float_exponent_def Let_def A_def B_def fa_def fb_def)
  have lo: "2 powi (float_exponent a b) * B \<le> A"
  proof (cases "2 powi (fa - fb) * B \<le> A")
    case True
    then show ?thesis by (simp add: fe)
  next
    case False
    have "2 powi (fa - fb - 1) * B \<le> 2 powi (fa - fb - 1) * 2 powi fb"
      using Bhi p0 [of "fa - fb - 1"] by (simp add: mult_left_mono)
    also have "\<dots> = (2 :: rat) powi (fa - 1)"
      by (simp add: power_int_add [symmetric])
    also have "\<dots> \<le> A" by (rule Alo)
    finally show ?thesis using False by (simp add: fe)
  qed
  have hi: "A < 2 powi (float_exponent a b + 1) * B"
  proof (cases "2 powi (fa - fb) * B \<le> A")
    case True
    have "A < 2 powi fa" by (rule Ahi)
    also have "\<dots> = (2 :: rat) powi (fa - fb + 1) * 2 powi (fb - 1)"
      by (simp add: power_int_add [symmetric])
    also have "\<dots> \<le> 2 powi (fa - fb + 1) * B"
      using Blo p0 [of "fa - fb + 1"] by (simp add: mult_left_mono)
    finally show ?thesis using True by (simp add: fe)
  next
    case False
    then show ?thesis by (simp add: fe)
  qed
  from lo Bpos show "(2 :: rat) powi (float_exponent a b) \<le> \<bar>of_int a / of_int b\<bar>"
    by (simp only: q pos_le_divide_eq)
  from hi Bpos show "\<bar>of_int a / of_int b :: rat\<bar> < 2 powi (float_exponent a b + 1)"
    by (simp only: q pos_divide_less_eq)
qed


lemma int_true_divide_rounded:
  assumes "a \<noteq> 0" and "b \<noteq> 0"
  shows "int_true_divide a b =
     (if \<bar>of_int (round_half_even (of_int a / of_int b
               / 2 powi (max (float_exponent a b) (- 1022) - 52)))
           * (2 :: rat) powi (max (float_exponent a b) (- 1022) - 52)\<bar> \<ge> 2 ^ 1024
      then Inl (OverflowError ''integer division result too large for a float'')
      else Inr (of_int (round_half_even (of_int a / of_int b
               / 2 powi (max (float_exponent a b) (- 1022) - 52)))
           * 2 powi (max (float_exponent a b) (- 1022) - 52)))"
  using assms by (simp add: int_true_divide_def Let_def)

lemma rounded_error:
  fixes q u :: rat
  assumes "0 < u"
  shows "\<bar>of_int (round_half_even (q / u)) * u - q\<bar> \<le> u / 2"
proof -
  have "\<bar>of_int (round_half_even (q / u)) * u - q\<bar>
      = \<bar>of_int (round_half_even (q / u)) - q / u\<bar> * u"
  proof -
    have "of_int (round_half_even (q / u)) * u - q
        = (of_int (round_half_even (q / u)) - q / u) * u"
      using assms by (simp add: left_diff_distrib)
    then have "\<bar>of_int (round_half_even (q / u)) * u - q\<bar>
        = \<bar>of_int (round_half_even (q / u)) - q / u\<bar> * \<bar>u\<bar>"
      by (simp only: abs_mult)
    with assms show ?thesis by simp
  qed
  also have "\<dots> \<le> (1 / 2) * u"
  proof (rule mult_right_mono)
    show "\<bar>of_int (round_half_even (q / u)) - q / u\<bar> \<le> 1 / 2"
      by (rule round_half_even_close)
    show "0 \<le> u" using assms by simp
  qed
  finally show ?thesis by simp
qed

lemma rounded_exact:
  fixes q u :: rat
  assumes "0 < u" and "q / u = of_int j"
  shows "of_int (round_half_even (q / u)) * u = q"
proof -
  have "of_int (round_half_even (q / u)) * u = of_int j * u"
    by (simp only: assms(2) round_half_even_of_int)
  also have "\<dots> = q / u * u" by (simp only: assms(2))
  also have "\<dots> = q" using assms(1) by simp
  finally show ?thesis .
qed

lemma rounded_abs_le:
  fixes q u :: rat
  assumes "0 < u" and "\<bar>q\<bar> \<le> of_int n * u"
  shows "\<bar>of_int (round_half_even (q / u)) * u\<bar> \<le> of_int n * u"
proof -
  from assms(2) have "q \<le> of_int n * u" and "- (of_int n * u) \<le> q"
    by linarith+
  with assms(1) have "q / u \<le> of_int n" and "of_int (- n) \<le> q / u"
    by (simp_all add: pos_divide_le_eq pos_le_divide_eq)
  then have "round_half_even (q / u) \<le> n" and "- n \<le> round_half_even (q / u)"
    by (simp_all only: round_half_even_le round_half_even_ge)
  then have "\<bar>round_half_even (q / u)\<bar> \<le> n" by simp
  then have "\<bar>of_int (round_half_even (q / u)) :: rat\<bar> \<le> of_int n"
    by (metis of_int_abs of_int_le_iff)
  then have "\<bar>of_int (round_half_even (q / u)) :: rat\<bar> * u \<le> of_int n * u"
    using assms(1) by (intro mult_right_mono) simp_all
  then show ?thesis using assms(1) by (simp add: abs_mult)
qed


lemma two_powi_add: "(2 :: rat) powi (m + n) = 2 powi m * 2 powi n"
  by (simp add: power_int_add)

lemma exponent_below:
  fixes q :: rat
  assumes "2 powi fe \<le> \<bar>q\<bar>" and "\<bar>q\<bar> < 2 powi n"
  shows "fe < n"
proof (rule ccontr)
  assume "\<not> fe < n"
  then have "(2 :: rat) powi n \<le> 2 powi fe" by (simp add: power_int_increasing)
  with assms show False by linarith
qed

lemma rounded_no_overflow:
  fixes q :: rat
  assumes lo: "2 powi fe \<le> \<bar>q\<bar>" and hi: "\<bar>q\<bar> < 2 powi (fe + 1)"
    and rng: "\<bar>q\<bar> < 2 powi (emax + 1) - 2 powi (emax - 53)"
    and mm: "emin \<le> emax"
  shows "\<bar>of_int (round_half_even (q / 2 powi (max fe emin - 52)))
            * (2 :: rat) powi (max fe emin - 52)\<bar> < 2 powi (emax + 1)"
proof -
  define e where "e = max fe emin"
  define u :: rat where "u = 2 powi (e - 52)"
  define m where "m = round_half_even (q / u)"
  have upos: "0 < u" by (simp add: u_def)
  have "(0 :: rat) < 2 powi (emax - 53)" by simp
  with rng have "\<bar>q\<bar> < 2 powi (emax + 1)" by linarith
  with lo have "fe < emax + 1" by (rule exponent_below)
  with mm have ele: "e \<le> emax" by (simp add: e_def)
  have u53: "2 ^ 53 * u = 2 powi (e + 1)"
  proof -
    have "(2 :: rat) powi (53 + (e - 52)) = 2 powi 53 * 2 powi (e - 52)"
      by (rule two_powi_add)
    moreover have "53 + (e - 52) = e + 1" by simp
    ultimately show ?thesis by (simp add: u_def)
  qed
  have "\<bar>of_int m * u\<bar> < 2 powi (emax + 1)"
  proof (cases "e = emax")
    case False
    with ele have e1: "e + 1 \<le> emax" by simp
    have "\<bar>q\<bar> \<le> 2 powi (e + 1)"
    proof -
      have "(2 :: rat) powi (fe + 1) \<le> 2 powi (e + 1)"
        by (rule power_int_increasing) (simp_all add: e_def)
      with hi show ?thesis by linarith
    qed
    then have "\<bar>q\<bar> \<le> of_int (2 ^ 53) * u" using u53 by simp
    with upos have "\<bar>of_int (round_half_even (q / u)) * u\<bar> \<le> of_int (2 ^ 53) * u"
      by (rule rounded_abs_le)
    then have "\<bar>of_int m * u\<bar> \<le> 2 powi (e + 1)" using u53 by (simp add: m_def)
    also have "\<dots> \<le> 2 powi emax" using e1 by (simp add: power_int_increasing)
    also have "\<dots> < 2 powi (emax + 1)" by (simp add: power_int_strict_increasing)
    finally show ?thesis .
  next
    case True
    have half: "(2 :: rat) powi (emax - 53) = u / 2"
    proof -
      have "(2 :: rat) powi (emax - 53 + 1) = 2 powi (emax - 53) * 2 powi 1"
        by (rule two_powi_add)
      moreover have "emax - 53 + 1 = emax - 52" by simp
      ultimately show ?thesis by (simp add: u_def True)
    qed
    have top: "(2 :: rat) powi (emax + 1) = 2 ^ 53 * u" using u53 True by simp
    from rng have qlt: "\<bar>q\<bar> < (2 ^ 53 - 1 / 2) * u"
      by (simp add: half top left_diff_distrib)
    have err: "\<bar>of_int m * u - q\<bar> \<le> u / 2"
      unfolding m_def using upos by (rule rounded_error)
    have "\<bar>of_int m * u\<bar> \<le> \<bar>of_int m * u - q\<bar> + \<bar>q\<bar>" by linarith
    also have "\<dots> < u / 2 + (2 ^ 53 - 1 / 2) * u" using err qlt by linarith
    also have "\<dots> = 2 ^ 53 * u" by (simp add: left_diff_distrib)
    finally show ?thesis by (simp add: top)
  qed
  then show ?thesis by (simp add: m_def u_def e_def)
qed


lemma rounded_relative_error:
  fixes q :: rat
  assumes lo: "2 powi fe \<le> \<bar>q\<bar>"
  shows "\<bar>of_int (round_half_even (q / 2 powi (max fe emin - 52)))
            * (2 :: rat) powi (max fe emin - 52) - q\<bar>
           \<le> max (\<bar>q\<bar> / 2 ^ 53) (2 powi (emin - 53))"
proof -
  define e where "e = max fe emin"
  define u :: rat where "u = 2 powi (e - 52)"
  have upos: "0 < u" by (simp add: u_def)
  have half: "u / 2 = 2 powi (e - 53)"
  proof -
    have "(2 :: rat) powi (e - 53 + 1) = 2 powi (e - 53) * 2 powi 1"
      by (rule two_powi_add)
    moreover have "e - 53 + 1 = e - 52" by simp
    ultimately show ?thesis by (simp add: u_def)
  qed
  have "\<bar>of_int (round_half_even (q / u)) * u - q\<bar> \<le> u / 2"
    using upos by (rule rounded_error)
  also have "u / 2 \<le> max (\<bar>q\<bar> / 2 ^ 53) (2 powi (emin - 53))"
  proof (cases "emin \<le> fe")
    case True
    then have "e = fe" by (simp add: e_def)
    have "(2 :: rat) powi (fe - 53 + 53) = 2 powi (fe - 53) * 2 powi 53"
      by (rule two_powi_add)
    then have "(2 :: rat) powi (fe - 53) = 2 powi fe / 2 ^ 53" by simp
    also have "\<dots> \<le> \<bar>q\<bar> / 2 ^ 53" using lo by (simp add: divide_right_mono)
    finally show ?thesis using half \<open>e = fe\<close> by simp
  next
    case False
    then have "e = emin" by (simp add: e_def)
    then show ?thesis using half by simp
  qed
  finally show ?thesis by (simp add: u_def e_def)
qed

lemma rounded_integer_exact:
  fixes q :: rat
  assumes lo: "2 powi fe \<le> \<bar>q\<bar>" and k: "q = of_int k" and small: "\<bar>k\<bar> \<le> 2 ^ 53"
    and emin: "emin \<le> 52"
  shows "of_int (round_half_even (q / 2 powi (max fe emin - 52)))
            * (2 :: rat) powi (max fe emin - 52) = q"
proof -
  define e where "e = max fe emin"
  define u :: rat where "u = 2 powi (e - 52)"
  have upos: "0 < u" by (simp add: u_def)
  have "\<bar>q\<bar> = of_int \<bar>k\<bar>" by (simp add: k)
  also have "\<dots> \<le> of_int (2 ^ 53)" using small by (simp only: of_int_le_iff)
  also have "\<dots> < (2 :: rat) powi 54" by simp
  finally have "\<bar>q\<bar> < 2 powi 54" .
  with lo have "fe < 54" by (rule exponent_below)
  with emin have ele: "e \<le> 53" by (simp add: e_def)
  have "\<exists>j. q / u = of_int j"
  proof (cases "e = 53")
    case False
    with ele have n: "0 \<le> 52 - e" by simp
    have "(2 :: rat) powi (52 - e + (e - 52)) = 2 powi (52 - e) * 2 powi (e - 52)"
      by (rule two_powi_add)
    then have "1 / u = 2 powi (52 - e)" by (simp add: u_def field_simps)
    also have "\<dots> = 2 ^ nat (52 - e)" using n by (simp add: power_int_def)
    finally have inv: "1 / u = 2 ^ nat (52 - e)" .
    have "q / u = q * (1 / u)" by simp
    also have "\<dots> = of_int (k * 2 ^ nat (52 - e))" by (simp only: inv k) simp
    finally show ?thesis by blast
  next
    case True
    then have fe: "fe = 53" using emin by (simp add: e_def max_def split: if_splits)
    from lo have "(2 :: rat) ^ 53 \<le> of_int \<bar>k\<bar>" by (simp add: fe k)
    then have "(of_int (2 ^ 53) :: rat) \<le> of_int \<bar>k\<bar>" by simp
    then have "2 ^ 53 \<le> \<bar>k\<bar>" by (simp only: of_int_le_iff)
    with small have "\<bar>k\<bar> = 2 ^ 53" by simp
    then have "even k" by (metis even_abs_add_iff even_add even_numeral even_power zero_less_numeral)
    then have "(of_int (k div 2) :: rat) = of_int k / of_int 2" by (rule of_int_div)
    moreover have "u = 2" by (simp add: u_def True)
    ultimately have "q / u = of_int (k div 2)" by (simp add: k)
    then show ?thesis by blast
  qed
  then obtain j where "q / u = of_int j" by blast
  with upos have "of_int (round_half_even (q / u)) * u = q" by (rule rounded_exact)
  then show ?thesis by (simp add: u_def e_def)
qed


lemma rounded_abs_ge:
  fixes q :: rat
  assumes lo: "2 powi fe \<le> \<bar>q\<bar>" and emin: "emin \<le> fe"
  shows "2 powi fe \<le> \<bar>of_int (round_half_even (q / 2 powi (max fe emin - 52)))
            * (2 :: rat) powi (max fe emin - 52)\<bar>"
proof -
  define u :: rat where "u = 2 powi (fe - 52)"
  define m where "m = round_half_even (q / u)"
  have upos: "0 < u" by (simp add: u_def)
  have u52: "2 powi fe = of_int (2 ^ 52) * u"
  proof -
    have "(2 :: rat) powi (52 + (fe - 52)) = 2 powi 52 * 2 powi (fe - 52)"
      by (rule two_powi_add)
    moreover have "52 + (fe - 52) = fe" by simp
    ultimately show ?thesis by (simp add: u_def)
  qed
  have "of_int (2 ^ 52) * u \<le> \<bar>of_int m * u\<bar>"
  proof (cases "0 \<le> q")
    case True
    with lo u52 have "of_int (2 ^ 52) * u \<le> q" by simp
    with upos have "of_int (2 ^ 52) \<le> q / u" by (simp add: pos_le_divide_eq)
    then have "2 ^ 52 \<le> m" unfolding m_def by (rule round_half_even_ge)
    then have "(of_int (2 ^ 52) :: rat) \<le> of_int m" by (simp only: of_int_le_iff)
    then have "of_int (2 ^ 52) * u \<le> of_int m * u"
      using upos by (simp only: mult_le_cancel_right_pos)
    then show ?thesis by linarith
  next
    case False
    with lo u52 have "q \<le> - (of_int (2 ^ 52) * u)" by simp
    with upos have "q / u \<le> of_int (- (2 ^ 52))" by (simp add: pos_divide_le_eq)
    then have "m \<le> - (2 ^ 52)" unfolding m_def by (rule round_half_even_le)
    then have "(of_int m :: rat) \<le> of_int (- (2 ^ 52))" by (simp only: of_int_le_iff)
    then have "of_int m * u \<le> of_int (- (2 ^ 52)) * u"
      using upos by (simp only: mult_le_cancel_right_pos)
    then have "of_int m * u \<le> - (of_int (2 ^ 52) * u)" by simp
    then show ?thesis by linarith
  qed
  moreover have "max fe emin = fe" using emin by simp
  ultimately show ?thesis by (simp only: u52 m_def u_def)
qed

lemma int_true_divide_error:
  assumes "b \<noteq> 0" and "int_true_divide a b = Inl e"
  shows "e = OverflowError ''integer division result too large for a float''"
  using assms by (simp add: int_true_divide_def Let_def split: if_splits)

lemma int_true_divide_in_range:
  assumes b: "b \<noteq> 0" and rng: "\<bar>of_int a / of_int b :: rat\<bar> < 2 ^ 1024 - 2 ^ 970"
  shows "\<exists>r. int_true_divide a b = Inr r
     \<and> \<bar>r - of_int a / of_int b\<bar> \<le> max (\<bar>of_int a / of_int b\<bar> / 2 ^ 53) (1 / 2 ^ 1075)
     \<and> (\<forall>k. of_int a / of_int b = (of_int k :: rat) \<longrightarrow> \<bar>k\<bar> \<le> 2 ^ 53
            \<longrightarrow> r = of_int a / of_int b)"
proof (cases "a = 0")
  case True
  with b show ?thesis by (simp add: int_true_divide_def)
next
  case False
  define q :: rat where "q = of_int a / of_int b"
  define fe where "fe = float_exponent a b"
  define r :: rat where
    "r = of_int (round_half_even (q / 2 powi (max fe (- 1022) - 52))) * 2 powi (max fe (- 1022) - 52)"
  from float_exponent_bounds [OF False b]
  have lo: "2 powi fe \<le> \<bar>q\<bar>" and hi: "\<bar>q\<bar> < 2 powi (fe + 1)"
    by (simp_all only: q_def fe_def)
  have "\<bar>q\<bar> < 2 powi (1023 + 1) - 2 powi (1023 - 53)" using rng by (simp add: q_def)
  moreover have "(- 1022 :: int) \<le> 1023" by simp
  ultimately have "\<bar>r\<bar> < 2 powi (1023 + 1)"
    unfolding r_def by (rule rounded_no_overflow [OF lo hi])
  then have small: "\<not> \<bar>r\<bar> \<ge> 2 ^ 1024" by simp
  have "int_true_divide a b =
     (if \<bar>r\<bar> \<ge> 2 ^ 1024
      then Inl (OverflowError ''integer division result too large for a float'')
      else Inr r)"
    unfolding r_def q_def fe_def by (rule int_true_divide_rounded [OF False b])
  with small have res: "int_true_divide a b = Inr r" by simp
  from rounded_relative_error [OF lo, of "- 1022"]
  have "\<bar>r - q\<bar> \<le> max (\<bar>q\<bar> / 2 ^ 53) (2 powi (- 1022 - 53))" unfolding r_def .
  moreover have "(2 :: rat) powi (- 1022 - 53) = 1 / 2 ^ 1075"
    by (simp add: power_int_minus field_simps)
  ultimately have err: "\<bar>r - q\<bar> \<le> max (\<bar>q\<bar> / 2 ^ 53) (1 / 2 ^ 1075)" by simp
  have ex: "\<forall>k. q = of_int k \<longrightarrow> \<bar>k\<bar> \<le> 2 ^ 53 \<longrightarrow> r = q"
  proof (intro allI impI)
    fix k assume "q = of_int k" and "\<bar>k\<bar> \<le> 2 ^ 53"
    with lo show "r = q" unfolding r_def by (intro rounded_integer_exact) simp_all
  qed
  from res err ex show ?thesis unfolding q_def by blast
qed

lemma round_half_even_half_up:
  assumes "of_int n + 1 / 2 \<le> x" and "odd n"
  shows "n + 1 \<le> round_half_even x"
proof (cases "of_int (n + 1) \<le> x")
  case True
  then show ?thesis by (rule round_half_even_ge)
next
  case False
  with assms(1) have "of_int n \<le> x" and "x < of_int n + 1" by simp_all
  then have f: "\<lfloor>x\<rfloor> = n" by (simp add: floor_unique)
  from assms(1) have "\<not> x - of_int n < 1 / 2" by simp
  with assms(2) f show ?thesis by (simp add: round_half_even_def Let_def)
qed

lemma round_half_even_half_down:
  assumes "x \<le> of_int n - 1 / 2" and "odd n"
  shows "round_half_even x \<le> n - 1"
proof (cases "x \<le> of_int (n - 1)")
  case True
  then show ?thesis by (rule round_half_even_le)
next
  case False
  with assms(1) have "of_int (n - 1) \<le> x" and "x < of_int (n - 1) + 1" by simp_all
  then have f: "\<lfloor>x\<rfloor> = n - 1" by (rule floor_unique)
  from assms(1) have "\<not> x - of_int (n - 1) > 1 / 2" by simp
  with assms(2) f show ?thesis by (simp add: round_half_even_def Let_def)
qed

lemma rounded_top_binade:
  fixes q u :: rat
  assumes upos: "0 < u" and big: "(2 ^ 53 - 1 / 2) * u \<le> \<bar>q\<bar>"
  shows "2 ^ 53 * u \<le> \<bar>of_int (round_half_even (q / u)) * u\<bar>"
proof -
  define m where "m = round_half_even (q / u)"
  have odd: "odd (2 ^ 53 - 1 :: int)" by simp
  have "2 ^ 53 \<le> \<bar>m\<bar>"
  proof (cases "0 \<le> q")
    case True
    with big have "(2 ^ 53 - 1 / 2) * u \<le> q" by simp
    with upos have "of_int (2 ^ 53 - 1) + 1 / 2 \<le> q / u" by (simp add: pos_le_divide_eq)
    from this odd have "(2 ^ 53 - 1) + 1 \<le> m" unfolding m_def by (rule round_half_even_half_up)
    then show ?thesis by simp
  next
    case False
    with big have "q \<le> - ((2 ^ 53 - 1 / 2) * u)" by simp
    with upos have "q / u \<le> - (2 ^ 53 - 1 / 2)" by (simp add: pos_divide_le_eq)
    then have "q / u \<le> of_int (- (2 ^ 53 - 1)) - 1 / 2" by simp
    moreover have "odd (- (2 ^ 53 - 1) :: int)" using odd by simp
    ultimately have "m \<le> - (2 ^ 53 - 1) - 1" unfolding m_def by (rule round_half_even_half_down)
    then show ?thesis by simp
  qed
  then have "(of_int (2 ^ 53) :: rat) \<le> of_int \<bar>m\<bar>" by (simp only: of_int_le_iff)
  then have "(2 ^ 53 :: rat) \<le> \<bar>of_int m\<bar>" by simp
  then have "2 ^ 53 * u \<le> \<bar>of_int m\<bar> * u"
    using upos by (simp only: mult_le_cancel_right_pos)
  then show ?thesis using upos by (simp add: abs_mult m_def)
qed

lemma int_true_divide_overflow:
  assumes b: "b \<noteq> 0" and big: "2 ^ 1024 - 2 ^ 970 \<le> \<bar>of_int a / of_int b :: rat\<bar>"
  shows "int_true_divide a b = Inl (OverflowError ''integer division result too large for a float'')"
proof -
  define q :: rat where "q = of_int a / of_int b"
  define fe where "fe = float_exponent a b"
  define r :: rat where
    "r = of_int (round_half_even (q / 2 powi (max fe (- 1022) - 52))) * 2 powi (max fe (- 1022) - 52)"
  have "(0 :: rat) < 2 ^ 1024 - 2 ^ 970" by simp
  with big have a: "a \<noteq> 0" by auto
  from float_exponent_bounds [OF a b]
  have lo: "2 powi fe \<le> \<bar>q\<bar>" and hi: "\<bar>q\<bar> < 2 powi (fe + 1)"
    by (simp_all only: q_def fe_def)
  have "(2 :: rat) powi 1023 \<le> 2 ^ 1024 - 2 ^ 970" by simp
  with big have "(2 :: rat) powi 1023 \<le> \<bar>q\<bar>" unfolding q_def by linarith
  from this hi have "1023 < fe + 1" by (rule exponent_below)
  then have fe: "1023 \<le> fe" by simp
  then have mx: "max fe (- 1022) = fe" by simp
  have "2 ^ 1024 \<le> \<bar>r\<bar>"
  proof (cases "fe = 1023")
    case True
    have "(2 ^ 53 - 1 / 2) * (2 :: rat) powi (1023 - 52) \<le> \<bar>q\<bar>"
      using big by (simp add: q_def)
    with rounded_top_binade [of "2 powi (1023 - 52)" q]
    have "2 ^ 53 * (2 :: rat) powi (1023 - 52)
        \<le> \<bar>of_int (round_half_even (q / 2 powi (1023 - 52))) * 2 powi (1023 - 52)\<bar>"
      by simp
    then show ?thesis unfolding r_def mx True by simp
  next
    case False
    with fe have fe': "1024 \<le> fe" by simp
    from fe have "- 1022 \<le> fe" by simp
    with lo have "2 powi fe \<le> \<bar>r\<bar>" unfolding r_def by (rule rounded_abs_ge)
    moreover have "(2 :: rat) powi 1024 \<le> 2 powi fe"
      by (rule power_int_increasing) (use fe' in simp_all)
    ultimately show ?thesis by simp
  qed
  then have "2 ^ 1024 \<le> \<bar>of_int (round_half_even (of_int a / of_int b
               / 2 powi (max (float_exponent a b) (- 1022) - 52)))
           * (2 :: rat) powi (max (float_exponent a b) (- 1022) - 52)\<bar>"
    unfolding r_def q_def fe_def .
  with int_true_divide_rounded [OF a b] show ?thesis by simp
qed

lemma abs_sum_list_le:
  assumes "\<forall>x \<in> set xs. \<bar>x\<bar> \<le> (B :: int)"
  shows "\<bar>sum_list xs\<bar> \<le> B * int (length xs)"
  using assms
proof (induction xs)
  case Nil
  then show ?case by simp
next
  case (Cons x xs)
  then have "\<bar>x\<bar> \<le> B" and "\<bar>sum_list xs\<bar> \<le> B * int (length xs)" by simp_all
  then have "\<bar>x + sum_list xs\<bar> \<le> B + B * int (length xs)" by linarith
  then show ?case by (simp add: algebra_simps)
qed

lemma exact_average_bound:
  assumes "numbers \<noteq> []" and "\<forall>x \<in> set numbers. \<bar>x\<bar> \<le> B"
  shows "\<bar>exact_average numbers\<bar> \<le> of_int B"
proof -
  from assms(1) have n: "0 < int (length numbers)" by simp
  have "\<bar>sum_list numbers\<bar> \<le> B * int (length numbers)"
    using assms(2) by (rule abs_sum_list_le)
  then have "(of_int \<bar>sum_list numbers\<bar> :: rat) \<le> of_int (B * int (length numbers))"
    by (simp only: of_int_le_iff)
  then have "\<bar>of_int (sum_list numbers) :: rat\<bar> \<le> of_int B * of_int (int (length numbers))"
    by simp
  moreover have "(0 :: rat) < of_int (int (length numbers))" using n by simp
  ultimately have "\<bar>of_int (sum_list numbers) :: rat\<bar> / of_int (int (length numbers)) \<le> of_int B"
    by (simp only: pos_divide_le_eq)
  then show ?thesis using n by (simp add: exact_average_def)
qed

lemma calculate_average_nonempty:
  assumes "numbers \<noteq> []"
  shows "calculate_average numbers = int_true_divide (sum_list numbers) (int (length numbers))"
    and "int (length numbers) \<noteq> 0"
  using assms by (simp_all add: calculate_average_def)

lemma calculate_average_in_range:
  assumes ne: "numbers \<noteq> []" and rng: "\<bar>exact_average numbers\<bar> < 2 ^ 1024 - 2 ^ 970"
  shows "\<exists>r. calculate_average numbers = Inr r
     \<and> \<bar>r - exact_average numbers\<bar> \<le> max (\<bar>exact_average numbers\<bar> / 2 ^ 53) (1 / 2 ^ 1075)
     \<and> (\<forall>k. exact_average numbers = of_int k \<longrightarrow> \<bar>k\<bar> \<le> 2 ^ 53
            \<longrightarrow> r = exact_average numbers)"
  using int_true_divide_in_range [OF calculate_average_nonempty(2) [OF ne], of "sum_list numbers"] rng
  unfolding calculate_average_nonempty(1) [OF ne] exact_average_def by blast

lemma calculate_average_overflow:
  assumes ne: "numbers \<noteq> []" and big: "2 ^ 1024 - 2 ^ 970 \<le> \<bar>exact_average numbers\<bar>"
  shows "calculate_average numbers
           = Inl (OverflowError ''integer division result too large for a float'')"
  using int_true_divide_overflow [OF calculate_average_nonempty(2) [OF ne], of "sum_list numbers"] big
  unfolding calculate_average_nonempty(1) [OF ne] exact_average_def by blast

lemma calculate_average_error:
  assumes ne: "numbers \<noteq> []" and err: "calculate_average numbers = Inl e"
  shows "e = OverflowError ''integer division result too large for a float''
       \<and> 2 ^ 1024 - 2 ^ 970 \<le> \<bar>exact_average numbers\<bar>"
proof
  from err have "int_true_divide (sum_list numbers) (int (length numbers)) = Inl e"
    by (simp only: calculate_average_nonempty(1) [OF ne])
  with calculate_average_nonempty(2) [OF ne]
  show "e = OverflowError ''integer division result too large for a float''"
    by (rule int_true_divide_error)
  show "2 ^ 1024 - 2 ^ 970 \<le> \<bar>exact_average numbers\<bar>"
  proof (rule ccontr)
    assume "\<not> 2 ^ 1024 - 2 ^ 970 \<le> \<bar>exact_average numbers\<bar>"
    then have "\<bar>exact_average numbers\<bar> < 2 ^ 1024 - 2 ^ 970" by simp
    with ne obtain r where "calculate_average numbers = Inr r"
      using calculate_average_in_range by blast
    with err show False by simp
  qed
qed


text \<open>
  Claim C5, as stated, covers every non-empty sequence of integers. The integers are
  unbounded and a float is not: the two-element sequence below has the exact average
  \<open>2\<^sup>1\<^sup>0\<^sup>2\<^sup>4\<close>, and the division raises \<open>OverflowError\<close> instead of
  returning a value.
\<close>

theorem calculate_average_overflow_counterexample:
  "[2 ^ 1024, 2 ^ 1024] \<noteq> ([] :: int list)
   \<and> exact_average [2 ^ 1024, 2 ^ 1024] = 2 ^ 1024
   \<and> calculate_average [2 ^ 1024, 2 ^ 1024]
       = Inl (OverflowError ''integer division result too large for a float'')"
proof -
  have ne: "[2 ^ 1024, 2 ^ 1024] \<noteq> ([] :: int list)" by simp
  have ex: "exact_average [2 ^ 1024, 2 ^ 1024] = 2 ^ 1024" by (simp add: exact_average_def)
  then have "2 ^ 1024 - 2 ^ 970 \<le> \<bar>exact_average [2 ^ 1024, 2 ^ 1024]\<bar>" by simp
  with ne have "calculate_average [2 ^ 1024, 2 ^ 1024]
       = Inl (OverflowError ''integer division result too large for a float'')"
    by (rule calculate_average_overflow)
  with ne ex show ?thesis by simp
qed

text \<open>
  Claim C5, amended: for every non-empty sequence of integers whose exact average
  \<open>sum / length\<close> is below \<open>2\<^sup>1\<^sup>0\<^sup>2\<^sup>4 - 2\<^sup>9\<^sup>7\<^sup>0\<close> in magnitude,
  \<open>calculate_average\<close> returns a float that differs from the exact average by at most
  the larger of its \<open>2\<^sup>-\<^sup>5\<^sup>3\<close>-th part and \<open>2\<^sup>-\<^sup>1\<^sup>0\<^sup>7\<^sup>5\<close>, and that is the
  exact average whenever the exact average is an integer of magnitude at most
  \<open>2\<^sup>5\<^sup>3\<close>; in particular \<open>calculate_average [2, 4, 6]\<close> is 4.0.
\<close>

theorem calculate_average_value:
  "(\<forall>numbers. numbers \<noteq> [] \<longrightarrow> \<bar>exact_average numbers\<bar> < 2 ^ 1024 - 2 ^ 970 \<longrightarrow>
      (\<exists>r. calculate_average numbers = Inr r
         \<and> \<bar>r - exact_average numbers\<bar> \<le> max (\<bar>exact_average numbers\<bar> / 2 ^ 53) (1 / 2 ^ 1075)
         \<and> (\<forall>k. exact_average numbers = of_int k \<longrightarrow> \<bar>k\<bar> \<le> 2 ^ 53
                \<longrightarrow> r = exact_average numbers)))
   \<and> calculate_average [2, 4, 6] = Inr 4"
proof (intro conjI allI impI)
  fix numbers :: "int list"
  assume "numbers \<noteq> []" and "\<bar>exact_average numbers\<bar> < 2 ^ 1024 - 2 ^ 970"
  then show "\<exists>r. calculate_average numbers = Inr r
         \<and> \<bar>r - exact_average numbers\<bar> \<le> max (\<bar>exact_average numbers\<bar> / 2 ^ 53) (1 / 2 ^ 1075)
         \<and> (\<forall>k. exact_average numbers = of_int k \<longrightarrow> \<bar>k\<bar> \<le> 2 ^ 53
                \<longrightarrow> r = exact_average numbers)"
    by (rule calculate_average_in_range)
next
  have ne: "[2, 4, 6] \<noteq> ([] :: int list)" by simp
  have ex: "exact_average [2, 4, 6] = of_int 4" by (simp add: exact_average_def)
  then have "\<bar>exact_average [2, 4, 6]\<bar> < 2 ^ 1024 - 2 ^ 970" by simp
  with ne obtain r where r: "calculate_average [2, 4, 6] = Inr r"
    and "\<forall>k. exact_average [2, 4, 6] = of_int k \<longrightarrow> \<bar>k\<bar> \<le> 2 ^ 53 \<longrightarrow> r = exact_average [2, 4, 6]"
    using calculate_average_in_range by blast
  with ex have "r = of_int 4" by simp
  with r show "calculate_average [2, 4, 6] = Inr 4" by simp
qed

theorem calculate_average_value_witness:
  "[10, 20] \<noteq> ([] :: int list) \<and> \<bar>exact_average [10, 20]\<bar> < 2 ^ 1024 - 2 ^ 970
   \<and> exact_average [10, 20] = of_int 15 \<and> \<bar>15 :: int\<bar> \<le> 2 ^ 53
   \<and> calculate_average [10, 20] = Inr 15
   \<and> calculate_average [1, 0, 0] = Inr (6004799503160661 / 18014398509481984)"
proof -
  have third: "calculate_average [1, 0, 0] = Inr (6004799503160661 / 18014398509481984)"
    by code_simp
  have ne: "[10, 20] \<noteq> ([] :: int list)" by simp
  have ex: "exact_average [10, 20] = of_int 15" by (simp add: exact_average_def)
  then have rng: "\<bar>exact_average [10, 20]\<bar> < 2 ^ 1024 - 2 ^ 970" by simp
  have k: "\<bar>15 :: int\<bar> \<le> 2 ^ 53" by simp
  from calculate_average_value ne rng
  obtain r where r: "calculate_average [10, 20] = Inr r"
    and "\<forall>k. exact_average [10, 20] = of_int k \<longrightarrow> \<bar>k\<bar> \<le> 2 ^ 53 \<longrightarrow> r = exact_average [10, 20]"
    by blast
  with ex k have "r = of_int 15" by simp
  with r ne ex rng k third show ?thesis by simp
qed

text \<open>
  Claim C4, as stated, leaves the two functions no failure other than the empty input.
  On the one-element sequence \<open>[2\<^sup>1\<^sup>0\<^sup>2\<^sup>4]\<close> \<open>calculate_average\<close> raises
  \<open>OverflowError\<close>.
\<close>

theorem calculate_average_other_failure_counterexample:
  "[2 ^ 1024] \<noteq> ([] :: int list)
   \<and> calculate_average [2 ^ 1024]
       = Inl (OverflowError ''integer division result too large for a float'')
   \<and> calculate_average [2 ^ 1024] \<noteq> Inl (ValueError ''List of numbers cannot be empty'')"
proof -
  have ne: "[2 ^ 1024] \<noteq> ([] :: int list)" by simp
  have "2 ^ 1024 - 2 ^ 970 \<le> \<bar>exact_average [2 ^ 1024]\<bar>" by (simp add: exact_average_def)
  with ne have "calculate_average [2 ^ 1024]
       = Inl (OverflowError ''integer division result too large for a float'')"
    by (rule calculate_average_overflow)
  with ne show ?thesis by simp
qed

text \<open>
  Claim C4, amended: \<open>calculate_average\<close> and \<open>find_max\<close> applied to the empty
  sequence fail with the empty-input error. This is the only failure of \<open>find_max\<close>.
  \<open>calculate_average\<close> has one more: on a non-empty sequence it fails, with
  \<open>OverflowError\<close>, exactly when the exact average has a magnitude of at least
  \<open>2\<^sup>1\<^sup>0\<^sup>2\<^sup>4 - 2\<^sup>9\<^sup>7\<^sup>0\<close> (so never when every element is at most
  \<open>2\<^sup>1\<^sup>0\<^sup>2\<^sup>3\<close> in magnitude).
\<close>

theorem failure_modes:
  "calculate_average [] = Inl (ValueError ''List of numbers cannot be empty'')
   \<and> find_max [] = Inl (ValueError ''List of numbers cannot be empty'')
   \<and> (\<forall>numbers. numbers \<noteq> [] \<longrightarrow> (\<exists>m. find_max numbers = Inr m))
   \<and> (\<forall>numbers e. numbers \<noteq> [] \<longrightarrow> calculate_average numbers = Inl e \<longrightarrow>
         e = OverflowError ''integer division result too large for a float''
         \<and> 2 ^ 1024 - 2 ^ 970 \<le> \<bar>exact_average numbers\<bar>)
   \<and> (\<forall>numbers. numbers \<noteq> [] \<longrightarrow> (\<forall>x \<in> set numbers. \<bar>x\<bar> \<le> 2 ^ 1023) \<longrightarrow>
         (\<exists>r. calculate_average numbers = Inr r))
   \<and> (\<forall>numbers. numbers \<noteq> [] \<longrightarrow> 2 ^ 1024 - 2 ^ 970 \<le> \<bar>exact_average numbers\<bar> \<longrightarrow>
         calculate_average numbers
           = Inl (OverflowError ''integer division result too large for a float''))"
proof (intro conjI allI impI)
  show "calculate_average [] = Inl (ValueError ''List of numbers cannot be empty'')"
    by (simp add: calculate_average_def)
  show "find_max [] = Inl (ValueError ''List of numbers cannot be empty'')"
    by (simp add: find_max_def)
next
  fix numbers :: "int list"
  assume "numbers \<noteq> []"
  then show "\<exists>m. find_max numbers = Inr m" by (simp add: find_max_def)
next
  fix numbers :: "int list" and e
  assume ne: "numbers \<noteq> []" and err: "calculate_average numbers = Inl e"
  from calculate_average_error [OF ne err]
  show "e = OverflowError ''integer division result too large for a float''"
    and "2 ^ 1024 - 2 ^ 970 \<le> \<bar>exact_average numbers\<bar>"
    by simp_all
next
  fix numbers :: "int list"
  assume ne: "numbers \<noteq> []" and b: "\<forall>x \<in> set numbers. \<bar>x\<bar> \<le> 2 ^ 1023"
  from exact_average_bound [OF ne b] have "\<bar>exact_average numbers\<bar> \<le> 2 ^ 1023" by simp
  then have "\<bar>exact_average numbers\<bar> < 2 ^ 1024 - 2 ^ 970" by simp
  with ne show "\<exists>r. calculate_average numbers = Inr r"
    using calculate_average_in_range by blast
next
  fix numbers :: "int list"
  assume "numbers \<noteq> []" and "2 ^ 1024 - 2 ^ 970 \<le> \<bar>exact_average numbers\<bar>"
  then show "calculate_average numbers
           = Inl (OverflowError ''integer division result too large for a float'')"
    by (rule calculate_average_overflow)
qed

theorem failure_modes_witness:
  "[3, 9, 4] \<noteq> ([] :: int list) \<and> list_all (\<lambda>x. \<bar>x\<bar> \<le> 2 ^ 1023) [3, 9, 4 :: int]
   \<and> (\<exists>m. find_max [3, 9, 4] = Inr m) \<and> (\<exists>r. calculate_average [3, 9, 4] = Inr r)"
proof -
  have ne: "[3, 9, 4] \<noteq> ([] :: int list)" by simp
  have b: "\<forall>x \<in> set [3, 9, 4 :: int]. \<bar>x\<bar> \<le> 2 ^ 1023" by simp
  from failure_modes ne have "\<exists>m. find_max [3, 9, 4] = Inr m" by blast
  moreover from failure_modes ne b have "\<exists>r. calculate_average [3, 9, 4] = Inr r" by blast
  ultimately show ?thesis using ne b by (simp add: list_all_iff)
qed


end
